theory Spec2Isabelle
  imports Main "HOL-Library.Multiset"
begin

section \<open>Data model\<close>

text \<open>
  The interface \<^verbatim>\<open>Comment\<close> of \<^verbatim>\<open>CommentSection.tsx\<close>. Identifiers are integers
  (the backend's keys); \<^verbatim>\<open>parent_comment_id: number | null\<close> is an optional integer.
  The field \<^verbatim>\<open>id\<close> is called \<open>id_c\<close>, since \<open>id\<close> is HOL's identity function.
\<close>

record Comment =
  id_c :: int
  post_id :: int
  parent_comment_id :: "int option"
  content :: string
  user_id :: string
  created_at :: string
  author :: string

text \<open>
  JavaScript truthiness of a \<^verbatim>\<open>number | null\<close> holding an integer: \<^verbatim>\<open>null\<close> and \<^verbatim>\<open>0\<close> are
  falsy, every other integer is truthy.
\<close>

definition truthy :: "int option \<Rightarrow> bool" where
  "truthy p = (case p of None \<Rightarrow> False | Some n \<Rightarrow> n \<noteq> 0)"

text \<open>
  \<^verbatim>\<open>buildCommentTree\<close> allocates one object \<^verbatim>\<open>{ ...comment, children: [] }\<close> per input
  comment and afterwards pushes references to these objects into the \<^verbatim>\<open>children\<close> arrays
  of other such objects and into \<^verbatim>\<open>roots\<close>. The objects are shared and mutated, so they
  live in an explicit store: a list of objects, the address of an object being its index.
  An object of type \<^verbatim>\<open>Comment & { children?: Comment[] }\<close> is the copied comment together
  with the optional array of references.
\<close>

type_synonym ref = nat

record CommentNode =
  comment :: Comment
  children :: "ref list option"

text \<open>
  What the function hands back: the array \<^verbatim>\<open>roots\<close> of references, and the store the
  references point into.
\<close>

record Forest =
  heap :: "CommentNode list"
  roots :: "ref list"

text \<open>
  \<open>TypeError\<close> is what \<^verbatim>\<open>parent.children!.push(...)\<close> throws when \<^verbatim>\<open>children\<close> is
  undefined. The assertion \<^verbatim>\<open>map.get(comment.id)!\<close> is erased by the compiler: an absent
  entry would be pushed as \<^verbatim>\<open>undefined\<close> and break the renderer later. The model stops
  with \<open>UndefinedNode\<close> there, so that a theorem of success also says that no
  \<^verbatim>\<open>undefined\<close> was ever stored. \<open>Error msg\<close> is \<^verbatim>\<open>throw new Error(msg)\<close>.
\<close>

datatype error = TypeError | UndefinedNode | Error string

section \<open>buildCommentTree\<close>

text \<open>
  First \<^verbatim>\<open>forEach\<close>: \<^verbatim>\<open>map.set(comment.id, { ...comment, children: [] })\<close>. A fresh object
  is appended to the store and the \<^verbatim>\<open>Map\<close> entry of the id is set (or overwritten) to its
  address.
\<close>

fun first_pass ::
  "Comment list \<Rightarrow> CommentNode list \<times> (int \<rightharpoonup> ref) \<Rightarrow> CommentNode list \<times> (int \<rightharpoonup> ref)" where
  "first_pass [] hm = hm"
| "first_pass (c # cs) (h, m) =
     first_pass cs (h @ [\<lparr>comment = c, children = Some []\<rparr>], m(id_c c \<mapsto> length h))"

text \<open>\<^verbatim>\<open>roots.push(map.get(comment.id)!)\<close>\<close>

definition push_root :: "(int \<rightharpoonup> ref) \<Rightarrow> Comment \<Rightarrow> Forest \<Rightarrow> error + Forest" where
  "push_root m c f =
     (case m (id_c c) of
        None \<Rightarrow> Inl UndefinedNode
      | Some me \<Rightarrow> Inr (f\<lparr>roots := roots f @ [me]\<rparr>))"

text \<open>
  \<^verbatim>\<open>parent.children!.push(map.get(comment.id)!)\<close>, the object \<^verbatim>\<open>parent\<close> being at address
  \<open>p\<close>. Addresses are only ever taken from the lookup, which holds addresses of
  allocated objects (\<open>lookup_sound\<close> below).
\<close>

definition push_child :: "(int \<rightharpoonup> ref) \<Rightarrow> Comment \<Rightarrow> ref \<Rightarrow> Forest \<Rightarrow> error + Forest" where
  "push_child m c p f =
     (case children (heap f ! p) of
        None \<Rightarrow> Inl TypeError
      | Some kids \<Rightarrow>
          (case m (id_c c) of
             None \<Rightarrow> Inl UndefinedNode
           | Some me \<Rightarrow>
               Inr (f\<lparr>heap := (heap f)[p := (heap f ! p)\<lparr>children := Some (kids @ [me])\<rparr>]\<rparr>)))"

text \<open>
  The body of the second \<^verbatim>\<open>forEach\<close>. \<^verbatim>\<open>if (comment.parent_comment_id)\<close> tests truthiness:
  \<^verbatim>\<open>null\<close> and \<^verbatim>\<open>0\<close> take the \<^verbatim>\<open>else\<close> branch. In the truthy branch, a parent that
  \<^verbatim>\<open>map.get\<close> does not find leaves everything unchanged: the inner \<^verbatim>\<open>if (parent)\<close> has no
  \<^verbatim>\<open>else\<close>.
\<close>

definition link :: "(int \<rightharpoonup> ref) \<Rightarrow> Comment \<Rightarrow> Forest \<Rightarrow> error + Forest" where
  "link m c f =
     (case parent_comment_id c of
        None \<Rightarrow> push_root m c f
      | Some pid \<Rightarrow>
          if pid \<noteq> 0 then
            (case m pid of
               None \<Rightarrow> Inr f
             | Some p \<Rightarrow> push_child m c p f)
          else push_root m c f)"

fun second_pass :: "(int \<rightharpoonup> ref) \<Rightarrow> Comment list \<Rightarrow> Forest \<Rightarrow> error + Forest" where
  "second_pass m [] f = Inr f"
| "second_pass m (c # cs) f =
     (case link m c f of
        Inl e \<Rightarrow> Inl e
      | Inr f' \<Rightarrow> second_pass m cs f')"

definition buildCommentTree :: "Comment list \<Rightarrow> error + Forest" where
  "buildCommentTree flatComments =
     (case first_pass flatComments ([], Map.empty) of
        (h, m) \<Rightarrow> second_pass m flatComments \<lparr>heap = h, roots = []\<rparr>)"

section \<open>The forest as the renderer walks it\<close>

text \<open>
  \<^verbatim>\<open>CommentSection\<close> renders one \<^verbatim>\<open>CommentItem\<close> per entry of the returned array, and
  \<^verbatim>\<open>CommentItem\<close> renders one \<^verbatim>\<open>CommentItem\<close> per entry of \<^verbatim>\<open>comment.children\<close>,
  recursively. \<open>unfold\<close> is this walk from one address, as a finite tree. The object graph
  may contain cycles, so the walk has a depth budget: \<open>None\<close> says that the budget did
  not suffice (or that the address is not in the store).
\<close>

datatype CommentTree = CommentTree Comment "CommentTree list"

fun unfold :: "nat \<Rightarrow> CommentNode list \<Rightarrow> ref \<Rightarrow> CommentTree option" where
  "unfold 0 h a = None"
| "unfold (Suc n) h a =
     (if a < length h then
        (case children (h ! a) of
           None \<Rightarrow> Some (CommentTree (comment (h ! a)) [])
         | Some kids \<Rightarrow> map_option (CommentTree (comment (h ! a))) (those (map (unfold n h) kids)))
      else None)"

definition forest_of :: "nat \<Rightarrow> Forest \<Rightarrow> CommentTree list option" where
  "forest_of n f = those (map (unfold n (heap f)) (roots f))"

fun tree_comments :: "CommentTree \<Rightarrow> Comment list" where
  "tree_comments (CommentTree c ts) = c # concat (map tree_comments ts)"

definition forest_comments :: "CommentTree list \<Rightarrow> Comment list" where
  "forest_comments ts = concat (map tree_comments ts)"

text \<open>
  The comments and the ids that the walk meets from the returned roots, in the order it
  meets them (a node before its replies).
\<close>

definition reachable_comments :: "nat \<Rightarrow> Comment list \<Rightarrow> Comment list option" where
  "reachable_comments n cs =
     (case buildCommentTree cs of
        Inl e \<Rightarrow> None
      | Inr f \<Rightarrow> map_option forest_comments (forest_of n f))"

definition reachable_ids :: "nat \<Rightarrow> Comment list \<Rightarrow> int list option" where
  "reachable_ids n cs = map_option (map id_c) (reachable_comments n cs)"

text \<open>The comments held by the objects of the returned array itself.\<close>

definition root_comments :: "Comment list \<Rightarrow> Comment list option" where
  "root_comments cs =
     (case buildCommentTree cs of
        Inl e \<Rightarrow> None
      | Inr f \<Rightarrow> Some (map (\<lambda>a. comment (heap f ! a)) (roots f)))"

section \<open>The values CommentSection derives\<close>

text \<open>
  \<^verbatim>\<open>comments\<close> is the query's data: undefined until the first fetch has completed.
  \<^verbatim>\<open>comments ? buildCommentTree(comments) : []\<close> (an empty array is truthy),
  \<^verbatim>\<open>comments?.length || 0\<close> and \<^verbatim>\<open>commentTree.length\<close>.
\<close>

definition commentTree :: "Comment list option \<Rightarrow> error + Forest" where
  "commentTree comments =
     (case comments of
        None \<Rightarrow> Inr \<lparr>heap = [], roots = []\<rparr>
      | Some cs \<Rightarrow> buildCommentTree cs)"

definition totalComments :: "Comment list option \<Rightarrow> nat" where
  "totalComments comments =
     (case comments of
        None \<Rightarrow> 0
      | Some cs \<Rightarrow> if length cs = 0 then 0 else length cs)"

definition rootComments :: "Comment list option \<Rightarrow> error + nat" where
  "rootComments comments =
     (case commentTree comments of
        Inl e \<Rightarrow> Inl e
      | Inr f \<Rightarrow> Inr (length (roots f)))"

section \<open>createComment and createReply\<close>

text \<open>
  The row handed to \<^verbatim>\<open>supabase.from("comments").insert\<close>, and the interface
  \<^verbatim>\<open>NewComment\<close>. The backend client is not part of the repository: it is a parameter
  \<open>ins\<close>, which takes the row and the backend's state and gives the \<^verbatim>\<open>error\<close> of
  its answer (the message, when there is one) and the new state.
\<close>

record CommentInsert =
  ins_post_id :: int
  ins_content :: string
  ins_parent_comment_id :: "int option"
  ins_user_id :: string
  ins_author :: string

record NewComment =
  new_content :: string
  new_parent_comment_id :: "int option"

text \<open>Truthiness of a \<^verbatim>\<open>string | undefined\<close>: undefined and the empty string are falsy.\<close>

definition truthy_string :: "string option \<Rightarrow> bool" where
  "truthy_string s = (case s of None \<Rightarrow> False | Some x \<Rightarrow> x \<noteq> [])"

definition createComment ::
  "(CommentInsert \<Rightarrow> 'db \<Rightarrow> string option \<times> 'db) \<Rightarrow> NewComment \<Rightarrow> int \<Rightarrow>
   string option \<Rightarrow> string option \<Rightarrow> 'db \<Rightarrow> (error + unit) \<times> 'db" where
  "createComment ins newComment postId userId author' db =
     (if \<not> truthy_string userId \<or> \<not> truthy_string author' then
        (Inl (Error ''You must be logged in to comment.''), db)
      else
        (case ins \<lparr>ins_post_id = postId,
                   ins_content = new_content newComment,
                   ins_parent_comment_id =
                     (if truthy (new_parent_comment_id newComment)
                      then new_parent_comment_id newComment else None),
                   ins_user_id = the userId,
                   ins_author = the author'\<rparr> db of
           (Some msg, db') \<Rightarrow> (Inl (Error msg), db')
         | (None, db') \<Rightarrow> (Inr (), db')))"

definition createReply ::
  "(CommentInsert \<Rightarrow> 'db \<Rightarrow> string option \<times> 'db) \<Rightarrow> string \<Rightarrow> int \<Rightarrow> int \<Rightarrow>
   string option \<Rightarrow> string option \<Rightarrow> 'db \<Rightarrow> (error + unit) \<times> 'db" where
  "createReply ins replyContent postId parentCommentId userId author' db =
     (if \<not> truthy_string userId \<or> \<not> truthy_string author' then
        (Inl (Error ''You must be logged in to reply.''), db)
      else
        (case ins \<lparr>ins_post_id = postId,
                   ins_content = replyContent,
                   ins_parent_comment_id = Some parentCommentId,
                   ins_user_id = the userId,
                   ins_author = the author'\<rparr> db of
           (Some msg, db') \<Rightarrow> (Inl (Error msg), db')
         | (None, db') \<Rightarrow> (Inr (), db')))"

section \<open>The two-pass algorithm as the specification words it\<close>

text \<open>
  The specification's first pass is the one above. Its second pass reads: for each comment,
  if its \<^verbatim>\<open>parent_comment_id\<close> is present and resolves to an entry in the lookup, append
  this comment's node to that parent's children; otherwise append the node to the roots
  list. The definitions below follow these words on the same store; they differ from
  \<open>link\<close> in the test only.
\<close>

definition spec_link :: "(int \<rightharpoonup> ref) \<Rightarrow> Comment \<Rightarrow> Forest \<Rightarrow> error + Forest" where
  "spec_link m c f =
     (case parent_comment_id c of
        None \<Rightarrow> push_root m c f
      | Some pid \<Rightarrow>
          (case m pid of
             None \<Rightarrow> push_root m c f
           | Some p \<Rightarrow> push_child m c p f))"

fun spec_second_pass :: "(int \<rightharpoonup> ref) \<Rightarrow> Comment list \<Rightarrow> Forest \<Rightarrow> error + Forest" where
  "spec_second_pass m [] f = Inr f"
| "spec_second_pass m (c # cs) f =
     (case spec_link m c f of
        Inl e \<Rightarrow> Inl e
      | Inr f' \<Rightarrow> spec_second_pass m cs f')"

definition spec_buildCommentTree :: "Comment list \<Rightarrow> error + Forest" where
  "spec_buildCommentTree flatComments =
     (case first_pass flatComments ([], Map.empty) of
        (h, m) \<Rightarrow> spec_second_pass m flatComments \<lparr>heap = h, roots = []\<rparr>)"

section \<open>Vocabulary of the properties\<close>

text \<open>
  \<open>top_level c\<close>: the second pass takes the \<^verbatim>\<open>else\<close> branch for \<open>c\<close>.
  \<open>reply_to p c\<close>: \<open>c\<close> names \<open>p\<close> as its parent, with a truthy id.
\<close>

definition top_level :: "Comment \<Rightarrow> bool" where
  "top_level c \<longleftrightarrow> \<not> truthy (parent_comment_id c)"

definition reply_to :: "Comment \<Rightarrow> Comment \<Rightarrow> bool" where
  "reply_to p c \<longleftrightarrow> truthy (parent_comment_id c) \<and> parent_comment_id c = Some (id_c p)"

text \<open>
  \<open>up cs k c\<close> is the comment reached from \<open>c\<close> by following \<^verbatim>\<open>parent_comment_id\<close>
  \<open>k\<close> times inside the input \<open>cs\<close>, if all \<open>k\<close> parents are truthy and found. A comment
  is \<open>rooted\<close> when this chain ends in a top-level comment.
\<close>

fun up :: "Comment list \<Rightarrow> nat \<Rightarrow> Comment \<Rightarrow> Comment option" where
  "up cs 0 c = Some c"
| "up cs (Suc k) c =
     (case find (\<lambda>p. reply_to p c) cs of
        None \<Rightarrow> None
      | Some p \<Rightarrow> up cs k p)"

definition rooted :: "Comment list \<Rightarrow> Comment \<Rightarrow> bool" where
  "rooted cs c = (\<exists>k<length cs. case up cs k c of None \<Rightarrow> False | Some r \<Rightarrow> top_level r)"

text \<open>The input with every \<^verbatim>\<open>parent_comment_id\<close> of 0 replaced by \<^verbatim>\<open>null\<close>.\<close>

definition zero_as_null :: "Comment \<Rightarrow> Comment" where
  "zero_as_null c =
     (if parent_comment_id c = Some 0 then c\<lparr>parent_comment_id := None\<rparr> else c)"

subsection \<open>What the second pass appends, read off the input\<close>

definition is_reply_to :: "(int \<rightharpoonup> ref) \<Rightarrow> ref \<Rightarrow> Comment \<Rightarrow> bool" where
  "is_reply_to m a c =
     (case parent_comment_id c of None \<Rightarrow> False | Some pid \<Rightarrow> pid \<noteq> 0 \<and> m pid = Some a)"

definition child_refs :: "(int \<rightharpoonup> ref) \<Rightarrow> Comment list \<Rightarrow> ref \<Rightarrow> ref list" where
  "child_refs m cs a = map (\<lambda>c. the (m (id_c c))) (filter (is_reply_to m a) cs)"

definition root_refs :: "(int \<rightharpoonup> ref) \<Rightarrow> Comment list \<Rightarrow> ref list" where
  "root_refs m cs = map (\<lambda>c. the (m (id_c c))) (filter top_level cs)"

text \<open>\<open>linked m cs f f'\<close>: \<open>f'\<close> is \<open>f\<close> after the second pass has run over \<open>cs\<close>.\<close>

definition linked :: "(int \<rightharpoonup> ref) \<Rightarrow> Comment list \<Rightarrow> Forest \<Rightarrow> Forest \<Rightarrow> bool" where
  "linked m cs f f' \<longleftrightarrow>
     length (heap f') = length (heap f) \<and>
     roots f' = roots f @ root_refs m cs \<and>
     (\<forall>a<length (heap f).
        comment (heap f' ! a) = comment (heap f ! a) \<and>
        children (heap f' ! a) = Some (the (children (heap f ! a)) @ child_refs m cs a))"

text \<open>
  The result for an input with unique ids, in closed form: the object at address \<open>a\<close>
  holds the \<open>a\<close>-th comment, and addresses are positions in the input.
\<close>

definition grouped :: "Comment list \<Rightarrow> Forest" where
  "grouped cs =
     \<lparr>heap = map (\<lambda>a. \<lparr>comment = cs ! a,
                       children = Some (filter (\<lambda>i. reply_to (cs ! a) (cs ! i)) [0..<length cs])\<rparr>)
                 [0..<length cs],
      roots = filter (\<lambda>i. top_level (cs ! i)) [0..<length cs]\<rparr>"

text \<open>The walk of the renderer, on the input itself instead of the store.\<close>

fun subtree :: "nat \<Rightarrow> Comment list \<Rightarrow> Comment \<Rightarrow> CommentTree option" where
  "subtree 0 cs c = None"
| "subtree (Suc n) cs c =
     map_option (CommentTree c) (those (map (subtree n cs) (filter (reply_to c) cs)))"

definition forest_spec :: "nat \<Rightarrow> Comment list \<Rightarrow> CommentTree list option" where
  "forest_spec n cs = those (map (subtree n cs) (filter top_level cs))"

subsection \<open>Sample inputs\<close>

definition cmt :: "int \<Rightarrow> int option \<Rightarrow> string \<Rightarrow> Comment" where
  "cmt i p txt =
     \<lparr>id_c = i, post_id = 1, parent_comment_id = p, content = txt,
      user_id = ''u1'', created_at = ''2024-01-01'', author = ''ann''\<rparr>"

text \<open>One thread of four comments, and a comment whose parent 999 is not in the input.\<close>

definition thread :: "Comment list" where
  "thread = [cmt 1 None ''a'', cmt 2 (Some 1) ''b'', cmt 3 (Some 1) ''c'', cmt 4 (Some 2) ''d'']"

definition with_orphan :: "Comment list" where
  "with_orphan = [cmt 1 None ''a'', cmt 5 (Some 999) ''e'', cmt 2 (Some 1) ''b'']"

definition orphan_only :: "Comment list" where
  "orphan_only = [cmt 5 (Some 999) ''e'']"

text \<open>Two comments with the same id, and a reply to a comment whose id is 0.\<close>

definition twice :: "Comment list" where
  "twice = [cmt 1 None ''first'', cmt 1 None ''second'']"

definition zero_parent :: "Comment list" where
  "zero_parent = [cmt 0 None ''z'', cmt 7 (Some 0) ''r'']"

section \<open>The first pass\<close>

text \<open>
  After the first pass the store holds one object per input comment, in input order, and
  the lookup maps each id of the input to the address of its last occurrence.
\<close>

lemma first_pass_closed:
  "first_pass cs (h, m) =
     (h @ map (\<lambda>c. \<lparr>comment = c, children = Some []\<rparr>) cs,
      m ++ map_of (rev (zip (map id_c cs) [length h..<length h + length cs])))"
proof (induction cs arbitrary: h m)
  case Nil
  show ?case by simp
next
  case (Cons c cs)
  have upt: "[length h..<Suc (length h + length cs)] =
               length h # [Suc (length h)..<Suc (length h + length cs)]"
    by (rule upt_conv_Cons) simp
  show ?case
    by (simp add: Cons.IH upt map_add_assoc [symmetric] del: upt_Suc)
       (simp add: map_add_def fun_eq_iff split: option.splits)
qed

lemma lookup_sound:
  assumes "snd (first_pass cs ([], Map.empty)) k = Some i"
  shows "i < length cs \<and> id_c (cs ! i) = k"
proof -
  from assms have "map_of (rev (zip (map id_c cs) [0..<length cs])) k = Some i"
    by (simp add: first_pass_closed)
  then have "(k, i) \<in> set (zip (map id_c cs) [0..<length cs])"
    by (auto dest: map_of_SomeD)
  then show ?thesis
    by (auto simp: in_set_zip)
qed

lemma lookup_complete:
  assumes "c \<in> set cs"
  shows "snd (first_pass cs ([], Map.empty)) (id_c c) \<noteq> None"
proof -
  have "id_c c \<in> fst ` set (rev (zip (map id_c cs) [0..<length cs]))"
    using assms by (force simp: in_set_zip in_set_conv_nth)
  then show ?thesis
    by (simp add: first_pass_closed map_of_eq_None_iff del: set_rev)
qed

lemma lookup_distinct:
  assumes "distinct (map id_c cs)" "i < length cs"
  shows "snd (first_pass cs ([], Map.empty)) (id_c (cs ! i)) = Some i"
proof -
  from assms(2) have "cs ! i \<in> set cs" by simp
  from lookup_complete [OF this]
  obtain j where j: "snd (first_pass cs ([], Map.empty)) (id_c (cs ! i)) = Some j" by auto
  from lookup_sound [OF j] have "j < length cs" "id_c (cs ! j) = id_c (cs ! i)" by auto
  with assms have "j = i"
    by (metis length_map nth_eq_iff_index_eq nth_map)
  with j show ?thesis by simp
qed

section \<open>The second pass\<close>

text \<open>
  The second pass never fails on a store whose objects all have a \<^verbatim>\<open>children\<close> array and
  with a lookup that knows every id it is asked for; it appends \<open>root_refs\<close> to the roots
  and \<open>child_refs\<close> to the children of each object, and changes nothing else.
\<close>

lemma child_refs_Cons: "child_refs m (c # cs) a = child_refs m [c] a @ child_refs m cs a"
  by (simp add: child_refs_def)

lemma root_refs_Cons: "root_refs m (c # cs) = root_refs m [c] @ root_refs m cs"
  by (simp add: root_refs_def)

lemma link_linked:
  assumes ch: "\<forall>a<length (heap f). children (heap f ! a) \<noteq> None"
    and rg: "\<forall>k a. m k = Some a \<longrightarrow> a < length (heap f)"
    and me: "m (id_c c) \<noteq> None"
  shows "\<exists>f'. link m c f = Inr f' \<and> linked m [c] f f'"
proof -
  from me obtain i where i: "m (id_c c) = Some i" by auto
  show ?thesis
  proof (cases "truthy (parent_comment_id c)")
    case False
    then have "link m c f = Inr (f\<lparr>roots := roots f @ [i]\<rparr>)"
      by (auto simp: link_def push_root_def truthy_def i split: option.splits)
    moreover have "linked m [c] f (f\<lparr>roots := roots f @ [i]\<rparr>)"
      using False ch
      by (auto simp: linked_def root_refs_def child_refs_def is_reply_to_def truthy_def
                     top_level_def i split: option.splits)
    ultimately show ?thesis by blast
  next
    case True
    then obtain pid where pid: "parent_comment_id c = Some pid" "pid \<noteq> 0"
      by (auto simp: truthy_def split: option.splits)
    show ?thesis
    proof (cases "m pid")
      case None
      then have "link m c f = Inr f"
        by (simp add: link_def pid)
      moreover have "linked m [c] f f"
        using True None ch
        by (auto simp: linked_def root_refs_def child_refs_def is_reply_to_def top_level_def pid)
      ultimately show ?thesis by blast
    next
      case (Some p)
      with rg have p: "p < length (heap f)" by blast
      with ch obtain kids where kids: "children (heap f ! p) = Some kids" by auto
      let ?f' = "f\<lparr>heap := (heap f)[p := (heap f ! p)\<lparr>children := Some (kids @ [i])\<rparr>]\<rparr>"
      have "link m c f = Inr ?f'"
        by (simp add: link_def pid Some push_child_def kids i)
      moreover have "linked m [c] f ?f'"
        using True ch p
        by (auto simp: linked_def root_refs_def child_refs_def is_reply_to_def top_level_def
                       pid Some kids i nth_list_update)
      ultimately show ?thesis by blast
    qed
  qed
qed

lemma linked_trans:
  assumes "linked m [c] f f1" "linked m cs f1 f2"
  shows "linked m (c # cs) f f2"
  using assms
  by (simp add: linked_def child_refs_Cons [of m c cs] root_refs_Cons [of m c cs])

lemma second_pass_linked:
  assumes "\<forall>a<length (heap f). children (heap f ! a) \<noteq> None"
    and "\<forall>k a. m k = Some a \<longrightarrow> a < length (heap f)"
    and "\<forall>c\<in>set cs. m (id_c c) \<noteq> None"
  shows "\<exists>f'. second_pass m cs f = Inr f' \<and> linked m cs f f'"
  using assms
proof (induction cs arbitrary: f)
  case Nil
  then show ?case
    by (auto simp: linked_def root_refs_def child_refs_def)
next
  case (Cons c cs)
  from Cons.prems have "m (id_c c) \<noteq> None" by simp
  from link_linked [OF Cons.prems(1) Cons.prems(2) this]
  obtain f1 where f1: "link m c f = Inr f1" "linked m [c] f f1" by blast
  have ch1: "\<forall>a<length (heap f1). children (heap f1 ! a) \<noteq> None"
    using f1(2) by (simp add: linked_def)
  have rg1: "\<forall>k a. m k = Some a \<longrightarrow> a < length (heap f1)"
    using f1(2) Cons.prems(2) by (simp add: linked_def)
  from Cons.prems have "\<forall>c\<in>set cs. m (id_c c) \<noteq> None" by simp
  from Cons.IH [OF ch1 rg1 this]
  obtain f2 where f2: "second_pass m cs f1 = Inr f2" "linked m cs f1 f2" by blast
  from f1(1) f2(1) have "second_pass m (c # cs) f = Inr f2" by simp
  with linked_trans [OF f1(2) f2(2)] show ?case by blast
qed

lemma build_linked:
  "\<exists>f. buildCommentTree cs = Inr f \<and>
       linked (snd (first_pass cs ([], Map.empty))) cs
         \<lparr>heap = map (\<lambda>c. \<lparr>comment = c, children = Some []\<rparr>) cs, roots = []\<rparr> f"
proof -
  let ?m = "snd (first_pass cs ([], Map.empty))"
  let ?f0 = "\<lparr>heap = map (\<lambda>c. \<lparr>comment = c, children = Some []\<rparr>) cs, roots = []\<rparr>"
  have fp: "first_pass cs ([], Map.empty) = (heap ?f0, ?m)"
    by (simp add: first_pass_closed)
  have 1: "\<forall>a<length (heap ?f0). children (heap ?f0 ! a) \<noteq> None" by simp
  have 2: "\<forall>k a. ?m k = Some a \<longrightarrow> a < length (heap ?f0)"
    using lookup_sound [of cs] by simp
  have 3: "\<forall>c\<in>set cs. ?m (id_c c) \<noteq> None"
    using lookup_complete [of _ cs] by blast
  from second_pass_linked [OF 1 2 3]
  obtain f where "second_pass ?m cs ?f0 = Inr f" "linked ?m cs ?f0 f" by blast
  then show ?thesis
    unfolding buildCommentTree_def by (subst fp) auto
qed

section \<open>Inputs with unique ids\<close>

text \<open>
  With unique ids the lookup sends the id of the \<open>a\<close>-th comment to \<open>a\<close>, and the result
  is \<open>grouped\<close>.
\<close>

lemma map_filter_index:
  assumes "\<forall>i<length cs. g (cs ! i) = i"
  shows "map g (filter P cs) = filter (\<lambda>i. P (cs ! i)) [0..<length cs]"
proof -
  have "filter P cs = filter P (map ((!) cs) [0..<length cs])"
    by (simp add: map_nth)
  also have "\<dots> = map ((!) cs) (filter (\<lambda>i. P (cs ! i)) [0..<length cs])"
    by (simp add: filter_map comp_def)
  finally have "map g (filter P cs) = map (\<lambda>i. g (cs ! i)) (filter (\<lambda>i. P (cs ! i)) [0..<length cs])"
    by simp
  also have "\<dots> = map (\<lambda>i. i) (filter (\<lambda>i. P (cs ! i)) [0..<length cs])"
    using assms by (intro map_cong) auto
  finally show ?thesis by simp
qed

lemma is_reply_to_distinct:
  assumes "distinct (map id_c cs)" "a < length cs"
  shows "is_reply_to (snd (first_pass cs ([], Map.empty))) a c = reply_to (cs ! a) c"
proof (cases "parent_comment_id c")
  case None
  then show ?thesis by (simp add: is_reply_to_def reply_to_def truthy_def)
next
  case (Some pid)
  have "snd (first_pass cs ([], Map.empty)) pid = Some a \<longleftrightarrow> pid = id_c (cs ! a)"
    using lookup_sound [of cs pid a] lookup_distinct [OF assms] by auto
  then show ?thesis
    using Some by (auto simp: is_reply_to_def reply_to_def truthy_def)
qed

lemma child_refs_distinct:
  assumes "distinct (map id_c cs)" "a < length cs"
  shows "child_refs (snd (first_pass cs ([], Map.empty))) cs a =
         filter (\<lambda>i. reply_to (cs ! a) (cs ! i)) [0..<length cs]"
proof -
  have "child_refs (snd (first_pass cs ([], Map.empty))) cs a =
        map (\<lambda>c. the (snd (first_pass cs ([], Map.empty)) (id_c c))) (filter (reply_to (cs ! a)) cs)"
    unfolding child_refs_def
    by (rule arg_cong [where f = "map _"], rule filter_cong)
       (simp_all add: is_reply_to_distinct [OF assms])
  also have "\<dots> = filter (\<lambda>i. reply_to (cs ! a) (cs ! i)) [0..<length cs]"
    by (rule map_filter_index) (simp add: lookup_distinct [OF assms(1)])
  finally show ?thesis .
qed

lemma root_refs_distinct:
  assumes "distinct (map id_c cs)"
  shows "root_refs (snd (first_pass cs ([], Map.empty))) cs =
         filter (\<lambda>i. top_level (cs ! i)) [0..<length cs]"
  unfolding root_refs_def
  by (rule map_filter_index) (simp add: lookup_distinct [OF assms])

lemma build_grouped:
  assumes "distinct (map id_c cs)"
  shows "buildCommentTree cs = Inr (grouped cs)"
proof -
  let ?m = "snd (first_pass cs ([], Map.empty))"
  from build_linked [of cs] obtain f where
    f: "buildCommentTree cs = Inr f" and
    l: "linked ?m cs \<lparr>heap = map (\<lambda>c. \<lparr>comment = c, children = Some []\<rparr>) cs, roots = []\<rparr> f"
    by blast
  from l have len: "length (heap f) = length cs" by (simp add: linked_def)
  from l have r: "roots f = roots (grouped cs)"
    by (simp add: linked_def grouped_def root_refs_distinct [OF assms])
  have "heap f ! a = heap (grouped cs) ! a" if "a < length cs" for a
  proof -
    from l that have "comment (heap f ! a) = cs ! a"
      and "children (heap f ! a) = Some (child_refs ?m cs a)"
      by (simp_all add: linked_def)
    then show ?thesis
      using that by (simp add: grouped_def child_refs_distinct [OF assms that])
  qed
  then have "heap f = heap (grouped cs)"
    using len by (intro nth_equalityI) (simp_all add: grouped_def)
  with r have "f = grouped cs" by simp
  with f show ?thesis by simp
qed

lemma those_map_Some:
  "those (map f xs) = Some ys \<longleftrightarrow> (\<forall>x\<in>set xs. f x \<noteq> None) \<and> ys = map (\<lambda>x. the (f x)) xs"
  by (induction xs arbitrary: ys) (auto split: option.splits)

lemma those_map_cong:
  "(\<And>x. x \<in> set xs \<Longrightarrow> f x = g x) \<Longrightarrow> those (map f xs) = those (map g xs)"
  by (rule arg_cong [where f = those]) simp

text \<open>A walk that has completed is not changed by a larger budget.\<close>

lemma unfold_mono: "unfold n h a = Some t \<Longrightarrow> unfold (n + k) h a = Some t"
proof (induction n arbitrary: a t)
  case 0
  then show ?case by simp
next
  case (Suc n)
  from Suc.prems have a: "a < length h" by (simp split: if_splits)
  show ?case
  proof (cases "children (h ! a)")
    case None
    with Suc.prems a show ?thesis by simp
  next
    case (Some kids)
    with Suc.prems a obtain ts where
      ts: "those (map (unfold n h) kids) = Some ts" and t: "t = CommentTree (comment (h ! a)) ts"
      by auto
    from ts have ok: "\<forall>x\<in>set kids. unfold n h x \<noteq> None"
      by (simp add: those_map_Some)
    have "those (map (unfold (n + k) h) kids) = those (map (unfold n h) kids)"
    proof (rule those_map_cong)
      fix x assume "x \<in> set kids"
      with ok obtain tx where "unfold n h x = Some tx" by auto
      with Suc.IH [OF this] show "unfold (n + k) h x = unfold n h x" by simp
    qed
    with ts t Some a show ?thesis by simp
  qed
qed

lemma forest_of_mono: "forest_of n f = Some ts \<Longrightarrow> forest_of (n + k) f = Some ts"
proof -
  assume ts: "forest_of n f = Some ts"
  then have ok: "\<forall>x\<in>set (roots f). unfold n (heap f) x \<noteq> None"
    by (simp add: forest_of_def those_map_Some)
  have "those (map (unfold (n + k) (heap f)) (roots f)) = those (map (unfold n (heap f)) (roots f))"
  proof (rule those_map_cong)
    fix x assume "x \<in> set (roots f)"
    with ok obtain tx where "unfold n (heap f) x = Some tx" by auto
    with unfold_mono [OF this] show "unfold (n + k) (heap f) x = unfold n (heap f) x" by simp
  qed
  with ts show ?thesis by (simp add: forest_of_def)
qed

lemma filter_index:
  "filter P cs = map ((!) cs) (filter (\<lambda>i. P (cs ! i)) [0..<length cs])"
proof -
  have "filter P cs = filter P (map ((!) cs) [0..<length cs])"
    by (simp add: map_nth)
  then show ?thesis by (simp add: filter_map comp_def)
qed

lemma unfold_grouped:
  "a < length cs \<Longrightarrow> unfold n (heap (grouped cs)) a = subtree n cs (cs ! a)"
proof (induction n arbitrary: a)
  case 0
  show ?case by simp
next
  case (Suc n)
  let ?is = "filter (\<lambda>i. reply_to (cs ! a) (cs ! i)) [0..<length cs]"
  have h: "heap (grouped cs) ! a = \<lparr>comment = cs ! a, children = Some ?is\<rparr>"
    using Suc.prems by (simp add: grouped_def)
  have len: "length (heap (grouped cs)) = length cs"
    by (simp add: grouped_def)
  have "those (map (unfold n (heap (grouped cs))) ?is) = those (map (\<lambda>i. subtree n cs (cs ! i)) ?is)"
    by (rule those_map_cong) (simp add: Suc.IH)
  also have "\<dots> = those (map (subtree n cs) (filter (reply_to (cs ! a)) cs))"
    by (subst (2) filter_index) (simp add: comp_def)
  finally show ?case
    using Suc.prems by (simp add: h len)
qed

lemma forest_of_grouped: "forest_of n (grouped cs) = forest_spec n cs"
proof -
  let ?is = "filter (\<lambda>i. top_level (cs ! i)) [0..<length cs]"
  have "forest_of n (grouped cs) = those (map (unfold n (heap (grouped cs))) ?is)"
    by (simp add: forest_of_def grouped_def)
  also have "\<dots> = those (map (\<lambda>i. subtree n cs (cs ! i)) ?is)"
    by (rule those_map_cong) (simp add: unfold_grouped)
  also have "\<dots> = forest_spec n cs"
    unfolding forest_spec_def by (subst filter_index) (simp add: comp_def)
  finally show ?thesis .
qed

section \<open>Chains of parents\<close>

text \<open>
  With unique ids the parent of a comment is unique. A top-level comment has no parent, so
  a comment has at most one depth below a top-level comment; hence sibling subtrees are
  disjoint, a subtree does not contain its own root again, and a chain that ends in a
  top-level comment is shorter than the input.
\<close>

lemma find_parent:
  assumes "distinct (map id_c cs)" "p \<in> set cs" "reply_to p c"
  shows "find (\<lambda>q. reply_to q c) cs = Some p"
proof (cases "find (\<lambda>q. reply_to q c) cs")
  case None
  with assms(2,3) show ?thesis by (auto simp: find_None_iff)
next
  case (Some q)
  then have "q \<in> set cs" "reply_to q c"
    by (auto simp: find_Some_iff)
  with assms(3) have "id_c q = id_c p" by (simp add: reply_to_def)
  moreover from assms(1) have "inj_on id_c (set cs)" by (simp add: distinct_map)
  ultimately have "q = p" using \<open>q \<in> set cs\<close> assms(2) by (auto dest: inj_onD)
  with Some show ?thesis by simp
qed

lemma find_parentD:
  assumes "find (\<lambda>q. reply_to q c) cs = Some p"
  shows "p \<in> set cs \<and> reply_to p c"
  using assms by (auto simp: find_Some_iff)

lemma up_in_set: "c \<in> set cs \<Longrightarrow> up cs k c = Some r \<Longrightarrow> r \<in> set cs"
  by (induction k arbitrary: c) (auto split: option.splits dest: find_parentD)

lemma up_add: "up cs (j + k) c = Option.bind (up cs j c) (up cs k)"
  by (induction j arbitrary: c) (auto split: option.splits)

lemma up_top_level: "top_level r \<Longrightarrow> up cs (Suc k) r = None"
proof -
  assume "top_level r"
  then have "find (\<lambda>p. reply_to p r) cs = None"
    by (simp add: find_None_iff top_level_def reply_to_def)
  then show ?thesis by simp
qed

lemma depth_less:
  assumes "up cs j c = Some r" "top_level r" "up cs k c = Some r'"
  shows "k \<le> j"
proof (rule ccontr)
  assume "\<not> k \<le> j"
  then obtain d where "k = j + Suc d" by (metis add_Suc_right less_imp_Suc_add not_le)
  then have "up cs k c = up cs (Suc d) r"
    using assms(1) up_add [of cs j "Suc d" c] by simp
  with assms(2,3) show False by (simp add: up_top_level del: up.simps)
qed

lemma depth_unique:
  assumes "up cs j c = Some r" "top_level r" "up cs k c = Some r'" "top_level r'"
  shows "j = k"
  using depth_less [OF assms(1,2,3)] depth_less [OF assms(3,4,1)] by simp

lemma up_reply:
  assumes "distinct (map id_c cs)" "p \<in> set cs" "reply_to p c"
  shows "up cs (Suc k) c = up cs k p"
  by (simp add: find_parent [OF assms])

lemma subtree_ancestor:
  assumes "distinct (map id_c cs)"
  shows "subtree n cs c = Some t \<Longrightarrow> c \<in> set cs \<Longrightarrow> d \<in> set (tree_comments t) \<Longrightarrow>
         d \<in> set cs \<and> (\<exists>j. up cs j d = Some c)"
proof (induction n arbitrary: c t)
  case 0
  then show ?case by simp
next
  case (Suc n)
  from Suc.prems(1) obtain ts where
    ts: "those (map (subtree n cs) (filter (reply_to c) cs)) = Some ts" and t: "t = CommentTree c ts"
    by auto
  from ts have ok: "\<forall>e\<in>set (filter (reply_to c) cs). subtree n cs e \<noteq> None"
    and tsm: "ts = map (\<lambda>e. the (subtree n cs e)) (filter (reply_to c) cs)"
    by (simp_all add: those_map_Some)
  show ?case
  proof (cases "d = c")
    case True
    have "up cs 0 c = Some c" by simp
    with True Suc.prems(2) show ?thesis by blast
  next
    case False
    with Suc.prems(3) t tsm obtain e where
      e: "e \<in> set cs" "reply_to c e" "d \<in> set (tree_comments (the (subtree n cs e)))"
      by auto
    with ok obtain te where te: "subtree n cs e = Some te" by auto
    from Suc.IH [OF te e(1)] e(3) te obtain j where j: "d \<in> set cs" "up cs j d = Some e"
      by auto
    have "up cs (j + 1) d = Option.bind (up cs j d) (up cs 1)"
      by (rule up_add)
    also have "\<dots> = up cs (Suc 0) e" using j(2) by simp
    also have "\<dots> = Some c"
      using up_reply [OF assms Suc.prems(2) e(2), of 0] by simp
    finally show ?thesis using j(1) by blast
  qed
qed

lemma distinct_concat_map:
  assumes "distinct xs"
    and "\<And>x. x \<in> set xs \<Longrightarrow> distinct (f x)"
    and "\<And>x y. x \<in> set xs \<Longrightarrow> y \<in> set xs \<Longrightarrow> x \<noteq> y \<Longrightarrow> set (f x) \<inter> set (f y) = {}"
  shows "distinct (concat (map f xs))"
  using assms
proof (induction xs)
  case Nil
  show ?case by simp
next
  case (Cons x xs)
  have "distinct (concat (map f xs))"
    by (rule Cons.IH) (use Cons.prems in auto)
  moreover have "distinct (f x)" using Cons.prems(2) by simp
  moreover have "set (f x) \<inter> set (f y) = {}" if "y \<in> set xs" for y
    using Cons.prems(3) [of x y] Cons.prems(1) that by auto
  ultimately show ?case by auto
qed

lemma distinct_comments: "distinct (map id_c cs) \<Longrightarrow> distinct cs"
  by (simp add: distinct_map)

lemma up_Suc_end:
  "up cs (Suc j) d = Option.bind (up cs j d) (up cs (Suc 0))"
  using up_add [of cs j "Suc 0" d] by simp

lemma up_trans:
  "up cs j d = Some e \<Longrightarrow> up cs k e = Some r \<Longrightarrow> up cs (j + k) d = Some r"
  using up_add [of cs j k d] by simp

lemma subtree_distinct:
  assumes dist: "distinct (map id_c cs)"
  shows "subtree n cs c = Some t \<Longrightarrow> c \<in> set cs \<Longrightarrow> up cs k c = Some r \<Longrightarrow> top_level r \<Longrightarrow>
         distinct (tree_comments t)"
proof (induction n arbitrary: c t k)
  case 0
  then show ?case by simp
next
  case (Suc n)
  let ?kids = "filter (reply_to c) cs"
  from Suc.prems(1) obtain ts where
    ts: "those (map (subtree n cs) ?kids) = Some ts" and t: "t = CommentTree c ts"
    by auto
  from ts have ok: "\<forall>e\<in>set ?kids. subtree n cs e \<noteq> None"
    and tsm: "ts = map (\<lambda>e. the (subtree n cs e)) ?kids"
    by (simp_all add: those_map_Some)
  let ?f = "\<lambda>e. tree_comments (the (subtree n cs e))"
  have kid_up: "up cs (Suc k) e = Some r" if "e \<in> set ?kids" for e
    using that up_reply [OF dist Suc.prems(2), of e k] Suc.prems(3) by simp
  have anc: "\<exists>j. up cs j d = Some e" if "e \<in> set ?kids" "d \<in> set (?f e)" for e d
  proof -
    from that(1) ok obtain te where "subtree n cs e = Some te" by auto
    with subtree_ancestor [OF dist this, of d] that show ?thesis by auto
  qed
  have 1: "distinct ?kids"
    using dist by (simp add: distinct_comments)
  have 2: "distinct (?f e)" if "e \<in> set ?kids" for e
  proof -
    from that ok obtain te where te: "subtree n cs e = Some te" by auto
    from that have "e \<in> set cs" by simp
    from Suc.IH [OF te this kid_up [OF that] Suc.prems(4)] te show ?thesis by simp
  qed
  have 3: "set (?f e) \<inter> set (?f e') = {}" if "e \<in> set ?kids" "e' \<in> set ?kids" "e \<noteq> e'" for e e'
  proof (rule ccontr)
    assume "set (?f e) \<inter> set (?f e') \<noteq> {}"
    then obtain d where d: "d \<in> set (?f e)" "d \<in> set (?f e')" by auto
    from anc [OF that(1) d(1)] obtain j where j: "up cs j d = Some e" by blast
    from anc [OF that(2) d(2)] obtain j' where j': "up cs j' d = Some e'" by blast
    have a: "up cs (j + Suc k) d = Some r"
      using j kid_up [OF that(1)] by (rule up_trans)
    have b: "up cs (j' + Suc k) d = Some r"
      using j' kid_up [OF that(2)] by (rule up_trans)
    have "j + Suc k = j' + Suc k"
      using a Suc.prems(4) b Suc.prems(4) by (rule depth_unique)
    with j j' that(3) show False by simp
  qed
  have 4: "c \<notin> set (?f e)" if "e \<in> set ?kids" for e
  proof
    assume "c \<in> set (?f e)"
    from anc [OF that this] obtain j where j: "up cs j c = Some e" by blast
    have "up cs (j + Suc k) c = Some r"
      using j kid_up [OF that] by (rule up_trans)
    from depth_unique [OF this Suc.prems(4) Suc.prems(3) Suc.prems(4)] show False by simp
  qed
  have "distinct (concat (map ?f ?kids))"
    using 1 2 3 by (rule distinct_concat_map)
  moreover have "c \<notin> set (concat (map ?f ?kids))"
    using 4 by auto
  ultimately show ?case
    by (simp add: t tsm comp_def)
qed

lemma subtree_covers:
  assumes dist: "distinct (map id_c cs)"
  shows "subtree n cs c = Some t \<Longrightarrow> c \<in> set cs \<Longrightarrow> d \<in> set cs \<Longrightarrow> up cs k d = Some c \<Longrightarrow>
         d \<in> set (tree_comments t)"
proof (induction n arbitrary: c t k)
  case 0
  then show ?case by simp
next
  case (Suc n)
  let ?kids = "filter (reply_to c) cs"
  from Suc.prems(1) obtain ts where
    ts: "those (map (subtree n cs) ?kids) = Some ts" and t: "t = CommentTree c ts"
    by auto
  from ts have ok: "\<forall>e\<in>set ?kids. subtree n cs e \<noteq> None"
    and tsm: "ts = map (\<lambda>e. the (subtree n cs e)) ?kids"
    by (simp_all add: those_map_Some)
  show ?case
  proof (cases k)
    case 0
    with Suc.prems(4) show ?thesis by (simp add: t)
  next
    case (Suc k')
    with Suc.prems(4) have "Option.bind (up cs k' d) (up cs (Suc 0)) = Some c"
      using up_Suc_end [of cs k' d] by simp
    then obtain e where e: "up cs k' d = Some e" "up cs (Suc 0) e = Some c"
      by (cases "up cs k' d") auto
    from e(2) have "reply_to c e"
      by (auto split: option.splits dest: find_parentD)
    moreover from up_in_set [OF Suc.prems(3) e(1)] have "e \<in> set cs" .
    ultimately have kid: "e \<in> set ?kids" by simp
    with ok obtain te where te: "subtree n cs e = Some te" by auto
    from Suc.IH [OF te \<open>e \<in> set cs\<close> Suc.prems(3) e(1)]
    have "d \<in> set (tree_comments (the (subtree n cs e)))" using te by simp
    with kid show ?thesis
      by (auto simp: t tsm)
  qed
qed

lemma depth_bound:
  assumes dist: "distinct (map id_c cs)"
    and c: "c \<in> set cs" and up: "up cs k c = Some r" and top: "top_level r"
  shows "k < length cs"
proof -
  have some: "\<exists>e. up cs i c = Some e \<and> up cs (k - i) e = Some r" if "i \<le> k" for i
  proof -
    from that have "up cs k c = Option.bind (up cs i c) (up cs (k - i))"
      using up_add [of cs i "k - i" c] by simp
    with up show ?thesis by (cases "up cs i c") auto
  qed
  let ?f = "\<lambda>i. the (up cs i c)"
  have inj: "inj_on ?f {..k}"
  proof (rule inj_onI)
    fix i j assume ij: "i \<in> {..k}" "j \<in> {..k}" "?f i = ?f j"
    from some [of i] ij obtain e where e: "up cs i c = Some e" "up cs (k - i) e = Some r" by auto
    from some [of j] ij obtain e' where e': "up cs j c = Some e'" "up cs (k - j) e' = Some r" by auto
    from ij(3) e(1) e'(1) have "e = e'" by simp
    with e(2) e'(2) top have "k - i = k - j" by (auto intro: depth_unique)
    with ij show "i = j" by simp
  qed
  have "?f ` {..k} \<subseteq> set cs"
  proof
    fix x assume "x \<in> ?f ` {..k}"
    then obtain i where i: "i \<le> k" "x = ?f i" by auto
    from some [OF i(1)] obtain e where "up cs i c = Some e" by blast
    with up_in_set [OF c this] i(2) show "x \<in> set cs" by simp
  qed
  with inj have "card {..k} \<le> card (set cs)"
    by (intro card_inj_on_le) auto
  also have "\<dots> \<le> length cs" by (rule card_length)
  finally show ?thesis by simp
qed

lemma subtree_fuel:
  assumes dist: "distinct (map id_c cs)"
  shows "c \<in> set cs \<Longrightarrow> up cs k c = Some r \<Longrightarrow> top_level r \<Longrightarrow> length cs \<le> n + k \<Longrightarrow>
         subtree n cs c \<noteq> None"
proof (induction n arbitrary: c k)
  case 0
  with depth_bound [OF dist 0(1,2,3)] show ?case by simp
next
  case (Suc n)
  have "subtree n cs e \<noteq> None" if "e \<in> set (filter (reply_to c) cs)" for e
  proof -
    from that have e: "e \<in> set cs" "reply_to c e" by auto
    have "up cs (Suc k) e = Some r"
      using up_reply [OF dist Suc.prems(1) e(2), of k] Suc.prems(2) by simp
    from Suc.IH [OF e(1) this Suc.prems(3)] Suc.prems(4) show ?thesis by simp
  qed
  then obtain ts where "those (map (subtree n cs) (filter (reply_to c) cs)) = Some ts"
    using those_map_Some [of "subtree n cs" "filter (reply_to c) cs"] by blast
  then show ?case by simp
qed

lemma rooted_iff:
  assumes "distinct (map id_c cs)" "d \<in> set cs"
  shows "rooted cs d \<longleftrightarrow> (\<exists>k r. up cs k d = Some r \<and> top_level r)"
proof
  assume "rooted cs d"
  then show "\<exists>k r. up cs k d = Some r \<and> top_level r"
    by (auto simp: rooted_def split: option.splits)
next
  assume "\<exists>k r. up cs k d = Some r \<and> top_level r"
  then obtain k r where kr: "up cs k d = Some r" "top_level r" by blast
  from depth_bound [OF assms(1,2) kr] kr show "rooted cs d"
    by (auto simp: rooted_def)
qed

lemma forest_spec_total:
  assumes "distinct (map id_c cs)" "length cs \<le> n"
  shows "\<exists>ts. forest_spec n cs = Some ts"
proof -
  have "subtree n cs r \<noteq> None" if "r \<in> set (filter top_level cs)" for r
  proof -
    from that have "r \<in> set cs" "up cs 0 r = Some r" "top_level r" by auto
    from subtree_fuel [OF assms(1) this] assms(2) show ?thesis by simp
  qed
  then show ?thesis
    unfolding forest_spec_def
    using those_map_Some [of "subtree n cs" "filter top_level cs"] by blast
qed

lemma forest_spec_props:
  assumes dist: "distinct (map id_c cs)" and f: "forest_spec n cs = Some ts"
  shows "distinct (forest_comments ts)" and "set (forest_comments ts) = {d \<in> set cs. rooted cs d}"
proof -
  let ?rs = "filter top_level cs"
  let ?f = "\<lambda>r. tree_comments (the (subtree n cs r))"
  from f have ok: "\<forall>r\<in>set ?rs. subtree n cs r \<noteq> None"
    and tsm: "ts = map (\<lambda>r. the (subtree n cs r)) ?rs"
    by (simp_all add: forest_spec_def those_map_Some)
  have fc: "forest_comments ts = concat (map ?f ?rs)"
    by (simp add: forest_comments_def tsm comp_def)
  have anc: "d \<in> set cs \<and> (\<exists>j. up cs j d = Some r)" if "r \<in> set ?rs" "d \<in> set (?f r)" for r d
  proof -
    from that(1) ok obtain t where "subtree n cs r = Some t" by auto
    with subtree_ancestor [OF dist this, of d] that show ?thesis by auto
  qed
  have 1: "distinct ?rs" using dist by (simp add: distinct_comments)
  have 2: "distinct (?f r)" if "r \<in> set ?rs" for r
  proof -
    from that ok obtain t where t: "subtree n cs r = Some t" by auto
    from that have "r \<in> set cs" "up cs 0 r = Some r" "top_level r" by auto
    from subtree_distinct [OF dist t this] t show ?thesis by simp
  qed
  have 3: "set (?f r) \<inter> set (?f r') = {}" if "r \<in> set ?rs" "r' \<in> set ?rs" "r \<noteq> r'" for r r'
  proof (rule ccontr)
    assume "set (?f r) \<inter> set (?f r') \<noteq> {}"
    then obtain d where d: "d \<in> set (?f r)" "d \<in> set (?f r')" by auto
    from anc [OF that(1) d(1)] obtain j where j: "up cs j d = Some r" by blast
    from anc [OF that(2) d(2)] obtain j' where j': "up cs j' d = Some r'" by blast
    from that have tops: "top_level r" "top_level r'" by auto
    have "j = j'" using j tops(1) j' tops(2) by (rule depth_unique)
    with j j' that(3) show False by simp
  qed
  show "distinct (forest_comments ts)"
    unfolding fc using 1 2 3 by (rule distinct_concat_map)
  show "set (forest_comments ts) = {d \<in> set cs. rooted cs d}"
  proof (intro equalityI subsetI)
    fix d assume "d \<in> set (forest_comments ts)"
    then obtain r where r: "r \<in> set ?rs" "d \<in> set (?f r)" by (auto simp: fc)
    from anc [OF r] obtain j where "d \<in> set cs" "up cs j d = Some r" by blast
    moreover from r(1) have "top_level r" by simp
    ultimately show "d \<in> {d \<in> set cs. rooted cs d}"
      using rooted_iff [OF dist, of d] by blast
  next
    fix d assume "d \<in> {d \<in> set cs. rooted cs d}"
    then have d: "d \<in> set cs" "rooted cs d" by auto
    with rooted_iff [OF dist d(1)] obtain k r where kr: "up cs k d = Some r" "top_level r"
      by blast
    from up_in_set [OF d(1) kr(1)] kr(2) have r: "r \<in> set ?rs" by simp
    with ok obtain t where t: "subtree n cs r = Some t" by auto
    from r have "r \<in> set cs" by simp
    from subtree_covers [OF dist t this d(1) kr(1)] t have "d \<in> set (?f r)" by simp
    with r show "d \<in> set (forest_comments ts)" by (auto simp: fc)
  qed
qed

lemma reachable_comments_props:
  assumes "distinct (map id_c cs)" "length cs \<le> n"
  shows "\<exists>rs. reachable_comments n cs = Some rs \<and> distinct rs \<and>
              set rs = {d \<in> set cs. rooted cs d}"
proof -
  from forest_spec_total [OF assms] obtain ts where ts: "forest_spec n cs = Some ts" by blast
  have "reachable_comments n cs = Some (forest_comments ts)"
    by (simp add: reachable_comments_def build_grouped [OF assms(1)] forest_of_grouped ts)
  with forest_spec_props [OF assms(1) ts] show ?thesis by blast
qed

lemma orphan_not_rooted:
  assumes "truthy (parent_comment_id c)" "\<forall>p\<in>set cs. parent_comment_id c \<noteq> Some (id_c p)"
  shows "\<not> rooted cs c"
proof
  assume "rooted cs c"
  then obtain k r where kr: "up cs k c = Some r" "top_level r"
    by (auto simp: rooted_def split: option.splits)
  show False
  proof (cases k)
    case 0
    with kr assms(1) show False by (simp add: top_level_def)
  next
    case (Suc k')
    with kr(1) obtain p where "find (\<lambda>p. reply_to p c) cs = Some p"
      by (auto split: option.splits)
    from find_parentD [OF this] assms(2) show False by (auto simp: reply_to_def)
  qed
qed

lemma grouped_root_comments:
  "map (\<lambda>a. comment (heap (grouped cs) ! a)) (roots (grouped cs)) = filter top_level cs"
proof -
  let ?is = "filter (\<lambda>i. top_level (cs ! i)) [0..<length cs]"
  have "map (\<lambda>a. comment (heap (grouped cs) ! a)) ?is = map ((!) cs) ?is"
    by (rule map_cong) (simp_all add: grouped_def)
  also have "\<dots> = filter top_level cs" by (rule filter_index [symmetric])
  finally show ?thesis by (simp add: grouped_def)
qed

section \<open>Comparison with the specification's second pass\<close>

lemma link_spec_link:
  assumes "truthy (parent_comment_id c) \<longleftrightarrow> (\<exists>p\<in>set cs. parent_comment_id c = Some (id_c p))"
  shows "link (snd (first_pass cs ([], Map.empty))) c f =
         spec_link (snd (first_pass cs ([], Map.empty))) c f"
proof (cases "parent_comment_id c")
  case None
  then show ?thesis by (simp add: link_def spec_link_def)
next
  case (Some pid)
  let ?m = "snd (first_pass cs ([], Map.empty))"
  show ?thesis
  proof (cases "pid = 0")
    case False
    with assms Some obtain p where "p \<in> set cs" "pid = id_c p"
      by (auto simp: truthy_def)
    with lookup_complete [of p cs] have "?m pid \<noteq> None" by simp
    with False show ?thesis by (auto simp: link_def spec_link_def Some)
  next
    case True
    have "?m pid = None"
    proof (rule ccontr)
      assume "?m pid \<noteq> None"
      then obtain i where "?m pid = Some i" by auto
      from lookup_sound [OF this] have "cs ! i \<in> set cs" "id_c (cs ! i) = pid" by auto
      then have "\<exists>p\<in>set cs. parent_comment_id c = Some (id_c p)"
        using Some by auto
      with assms True Some show False by (simp add: truthy_def)
    qed
    with True show ?thesis by (simp add: link_def spec_link_def Some)
  qed
qed

lemma second_pass_spec:
  assumes "\<forall>c\<in>set ds. link m c = spec_link m c"
  shows "second_pass m ds f = spec_second_pass m ds f"
  using assms by (induction ds arbitrary: f) (auto split: sum.splits)

section \<open>A parent id of 0\<close>

lemma lookup_ids:
  assumes "map id_c cs = map id_c ds"
  shows "snd (first_pass cs ([], Map.empty)) = snd (first_pass ds ([], Map.empty))"
proof -
  from assms have "length cs = length ds" by (metis length_map)
  with assms show ?thesis by (simp add: first_pass_closed)
qed

lemma zero_as_null_simps:
  "id_c (zero_as_null c) = id_c c"
  "top_level (zero_as_null c) = top_level c"
  "is_reply_to m a (zero_as_null c) = is_reply_to m a c"
  by (auto simp: zero_as_null_def top_level_def truthy_def is_reply_to_def)

lemma root_refs_zero_as_null: "root_refs m (map zero_as_null cs) = root_refs m cs"
  by (simp add: root_refs_def filter_map comp_def zero_as_null_simps)

lemma child_refs_zero_as_null: "child_refs m (map zero_as_null cs) a = child_refs m cs a"
  by (simp add: child_refs_def filter_map comp_def zero_as_null_simps)

lemma root_ref_ids:
  assumes "\<forall>a<length cs. comment (h ! a) = cs ! a"
  shows "map (\<lambda>a. id_c (comment (h ! a))) (root_refs (snd (first_pass cs ([], Map.empty))) cs) =
         map id_c (filter top_level cs)"
proof -
  let ?m = "snd (first_pass cs ([], Map.empty))"
  have "id_c (comment (h ! the (?m (id_c c)))) = id_c c" if "c \<in> set cs" for c
  proof -
    from lookup_complete [OF that] obtain i where i: "?m (id_c c) = Some i" by auto
    from lookup_sound [OF i] assms i show ?thesis by simp
  qed
  then show ?thesis by (simp add: root_refs_def comp_def)
qed

section \<open>Worked inputs\<close>

text \<open>
  The first scenario of the specification: comment 1 with the replies 2 and 3, and 4 a
  reply to 2. The store holds the four objects in input order; the walk meets 1, 2, 4, 3.
\<close>

lemma thread_example:
  "buildCommentTree thread =
     Inr \<lparr>heap = [\<lparr>comment = cmt 1 None ''a'', children = Some [1, 2]\<rparr>,
                 \<lparr>comment = cmt 2 (Some 1) ''b'', children = Some [3]\<rparr>,
                 \<lparr>comment = cmt 3 (Some 1) ''c'', children = Some []\<rparr>,
                 \<lparr>comment = cmt 4 (Some 2) ''d'', children = Some []\<rparr>],
          roots = [0]\<rparr>"
  by (simp add: buildCommentTree_def link_def push_child_def push_root_def cmt_def thread_def)

lemma thread_forest: "reachable_ids 4 thread = Some [1, 2, 4, 3]"
  by (simp add: reachable_ids_def reachable_comments_def thread_example forest_of_def
        forest_comments_def eval_nat_numeral) (simp add: cmt_def)

text \<open>
  A comment that names itself as parent is pushed into its own \<^verbatim>\<open>children\<close> and into
  nothing else: the returned array is empty.
\<close>

lemma self_reference_example:
  "buildCommentTree [cmt 1 (Some 1) ''x''] =
     Inr \<lparr>heap = [\<lparr>comment = cmt 1 (Some 1) ''x'', children = Some [0]\<rparr>], roots = []\<rparr>"
  by (simp add: buildCommentTree_def link_def push_child_def cmt_def)

text \<open>A logged-in user's comment reaches the backend, with a falsy parent stored as null.\<close>

lemma logged_in_inserts:
  "createComment (\<lambda>row db. (None, row # db)) \<lparr>new_content = ''hi'', new_parent_comment_id = Some 0\<rparr>
     1 (Some ''u1'') (Some ''ann'') [] =
   (Inr (), [\<lparr>ins_post_id = 1, ins_content = ''hi'', ins_parent_comment_id = None,
              ins_user_id = ''u1'', ins_author = ''ann''\<rparr>])"
  by (simp add: createComment_def truthy_string_def truthy_def)

text \<open>
  A reply to the missing comment 999 between a comment and its reply: its object is in
  the store, but no array holds its address. The second scenario of the specification is
  this orphan alone.
\<close>

lemma with_orphan_example:
  "buildCommentTree with_orphan =
     Inr \<lparr>heap = [\<lparr>comment = cmt 1 None ''a'', children = Some [2]\<rparr>,
                 \<lparr>comment = cmt 5 (Some 999) ''e'', children = Some []\<rparr>,
                 \<lparr>comment = cmt 2 (Some 1) ''b'', children = Some []\<rparr>],
          roots = [0]\<rparr>"
  by (simp add: buildCommentTree_def link_def push_child_def push_root_def cmt_def with_orphan_def)

lemma with_orphan_forest:
  "reachable_comments 3 with_orphan = Some [cmt 1 None ''a'', cmt 2 (Some 1) ''b'']"
  by (simp add: reachable_comments_def with_orphan_example forest_of_def
        forest_comments_def eval_nat_numeral)

lemma with_orphan_rooted:
  "filter (rooted with_orphan) with_orphan = [cmt 1 None ''a'', cmt 2 (Some 1) ''b'']"
  by (simp add: with_orphan_def rooted_def Ex_less_Suc top_level_def reply_to_def truthy_def cmt_def)

lemma orphan_only_example:
  "buildCommentTree orphan_only =
     Inr \<lparr>heap = [\<lparr>comment = cmt 5 (Some 999) ''e'', children = Some []\<rparr>], roots = []\<rparr>"
  by (simp add: buildCommentTree_def link_def cmt_def orphan_only_def)

section \<open>The claims\<close>

text \<open>
  C1. The claim reads: for every input with unique ids, the multiset of ids reachable in
  the output forest equals the multiset of the input ids; no comment is dropped.

  This fails on the code. A comment with a truthy parent id that \<^verbatim>\<open>map.get\<close> does not
  find is pushed nowhere, and the replies below it are then out of reach as well; so are
  the comments of a parent cycle. What holds: with a depth budget \<open>n\<close> of at least the
  number of comments the walk from the returned roots completes, and the multiset of ids
  it meets is the multiset of ids of the rooted comments, those whose chain of parents ends,
  inside the input, in a comment with parent id null or 0. When every comment is rooted,
  this is the multiset of all input ids.
\<close>

theorem reachable_ids_are_rooted_ids:
  assumes "distinct (map id_c cs)" "length cs \<le> n"
  shows "\<exists>ids. reachable_ids n cs = Some ids \<and>
               mset ids = mset (map id_c (filter (rooted cs) cs)) \<and>
               ((\<forall>c\<in>set cs. rooted cs c) \<longrightarrow> mset ids = mset (map id_c cs))"
proof -
  from reachable_comments_props [OF assms] obtain rs where
    rs: "reachable_comments n cs = Some rs" "distinct rs" "set rs = {d \<in> set cs. rooted cs d}"
    by blast
  have "distinct (filter (rooted cs) cs)"
    using assms(1) by (simp add: distinct_comments)
  moreover have "set rs = set (filter (rooted cs) cs)" using rs(3) by auto
  ultimately have "mset rs = mset (filter (rooted cs) cs)"
    using rs(2) by (simp only: set_eq_iff_mset_eq_distinct [symmetric])
  then have 1: "mset (map id_c rs) = mset (map id_c (filter (rooted cs) cs))"
    by (metis mset_map)
  have 2: "mset (map id_c rs) = mset (map id_c cs)" if "\<forall>c\<in>set cs. rooted cs c"
  proof -
    from that have "filter (rooted cs) cs = cs" by simp
    with 1 show ?thesis by simp
  qed
  have "reachable_ids n cs = Some (map id_c rs)"
    using rs(1) by (simp add: reachable_ids_def)
  with 1 2 show ?thesis by blast
qed

theorem reachable_ids_are_rooted_ids_witness:
  "distinct (map id_c with_orphan) \<and> length with_orphan \<le> 3 \<and>
   reachable_ids 3 with_orphan = Some [1, 2] \<and>
   map id_c (filter (rooted with_orphan) with_orphan) = [1, 2] \<and>
   map id_c with_orphan = [1, 5, 2]"
  using reachable_ids_are_rooted_ids [of with_orphan 3]
  by (simp add: reachable_ids_def with_orphan_forest with_orphan_rooted)
     (simp add: with_orphan_def cmt_def)

text \<open>
  The claim of C1 as stated is false for the single comment 5 that replies to the missing
  comment 999: the ids are unique, the forest is empty, the input is not.
\<close>

theorem orphan_is_dropped:
  "distinct (map id_c orphan_only) \<and> reachable_ids 1 orphan_only = Some [] \<and>
   mset ([] :: int list) \<noteq> mset (map id_c orphan_only)"
  by (simp add: reachable_ids_def reachable_comments_def orphan_only_example forest_of_def
        forest_comments_def)
     (simp add: orphan_only_def)

text \<open>
  C2. The claim reads: for every input with unique ids, a comment is a root of the returned
  forest if and only if its parent id is null or is not the id of another comment of the
  input; a comment whose parent is not found is promoted to a root.

  This fails on the code: the roots are decided by truthiness alone. What holds: the
  returned array holds, in input order, exactly the comments whose parent id is null or 0;
  a comment with a truthy parent id that no comment of the input carries is not promoted,
  and the walk from the roots (with a budget \<open>n\<close> of at least the number of comments)
  does not meet it.
\<close>

theorem roots_are_falsy_parents:
  assumes "distinct (map id_c cs)" "length cs \<le> n"
  shows "root_comments cs = Some (filter top_level cs) \<and>
         (\<exists>rs. reachable_comments n cs = Some rs \<and>
               (\<forall>c\<in>set cs. truthy (parent_comment_id c) \<and>
                     (\<forall>p\<in>set cs. parent_comment_id c \<noteq> Some (id_c p)) \<longrightarrow> c \<notin> set rs))"
proof -
  have "root_comments cs = Some (filter top_level cs)"
    by (simp add: root_comments_def build_grouped [OF assms(1)] grouped_root_comments)
  moreover from reachable_comments_props [OF assms] obtain rs where
    rs: "reachable_comments n cs = Some rs" "set rs = {d \<in> set cs. rooted cs d}"
    by blast
  moreover have "c \<notin> set rs"
    if "truthy (parent_comment_id c)" "\<forall>p\<in>set cs. parent_comment_id c \<noteq> Some (id_c p)" for c
    using orphan_not_rooted [OF that] rs(2) by simp
  ultimately show ?thesis by blast
qed

theorem roots_are_falsy_parents_witness:
  "distinct (map id_c with_orphan) \<and> length with_orphan \<le> 3 \<and>
   root_comments with_orphan = Some [cmt 1 None ''a''] \<and>
   truthy (parent_comment_id (cmt 5 (Some 999) ''e'')) \<and>
   Some 999 \<notin> Some ` id_c ` set with_orphan \<and>
   reachable_comments 3 with_orphan = Some [cmt 1 None ''a'', cmt 2 (Some 1) ''b'']"
  using roots_are_falsy_parents [of with_orphan 3]
  by (simp add: with_orphan_forest root_comments_def with_orphan_example)
     (simp add: with_orphan_def cmt_def truthy_def)

text \<open>
  The claim of C2 as stated is false for the single comment 5 with parent 999: no comment
  of the input has the id 999, and the returned array is empty.
\<close>

theorem orphan_is_no_root:
  "distinct (map id_c orphan_only) \<and>
   parent_comment_id (cmt 5 (Some 999) ''e'') \<notin> Some ` id_c ` set orphan_only \<and>
   cmt 5 (Some 999) ''e'' \<in> set orphan_only \<and>
   root_comments orphan_only = Some []"
  by (simp add: root_comments_def orphan_only_example) (simp add: orphan_only_def cmt_def)

text \<open>
  C3. The claim reads: \<^verbatim>\<open>buildCommentTree\<close> is extensionally equal to the two-pass
  algorithm of the specification, whose second pass appends a comment to its parent's
  children if the parent id is present and resolves, and to the roots otherwise.

  This fails on the code, whose second pass tests the parent id for truthiness and, when a
  truthy id does not resolve, appends nothing. What holds: the two agree on every input in
  which each comment's parent id is truthy exactly when it is the id of a comment of the
  input (null parents, resolving non-zero parents, and a parent 0 that no comment carries).
\<close>

theorem agrees_with_spec_when_parents_resolve:
  assumes "\<forall>c\<in>set cs. truthy (parent_comment_id c) \<longleftrightarrow>
                       (\<exists>p\<in>set cs. parent_comment_id c = Some (id_c p))"
  shows "buildCommentTree cs = spec_buildCommentTree cs"
proof -
  have "\<forall>c\<in>set cs. link (snd (first_pass cs ([], Map.empty))) c =
                    spec_link (snd (first_pass cs ([], Map.empty))) c"
    using assms link_spec_link [of _ cs] by (auto simp: fun_eq_iff)
  from second_pass_spec [OF this] show ?thesis
    by (simp add: buildCommentTree_def spec_buildCommentTree_def case_prod_unfold)
qed

theorem agrees_with_spec_when_parents_resolve_witness:
  "list_all (\<lambda>c. truthy (parent_comment_id c) \<longleftrightarrow>
                  list_ex (\<lambda>p. parent_comment_id c = Some (id_c p)) thread) thread \<and>
   spec_buildCommentTree thread =
     Inr \<lparr>heap = [\<lparr>comment = cmt 1 None ''a'', children = Some [1, 2]\<rparr>,
                 \<lparr>comment = cmt 2 (Some 1) ''b'', children = Some [3]\<rparr>,
                 \<lparr>comment = cmt 3 (Some 1) ''c'', children = Some []\<rparr>,
                 \<lparr>comment = cmt 4 (Some 2) ''d'', children = Some []\<rparr>],
          roots = [0]\<rparr>"
proof -
  have h: "\<forall>c\<in>set thread. truthy (parent_comment_id c) \<longleftrightarrow>
                          (\<exists>p\<in>set thread. parent_comment_id c = Some (id_c p))"
    by (simp add: thread_def cmt_def truthy_def)
  from agrees_with_spec_when_parents_resolve [OF h] thread_example h show ?thesis
    by (simp add: list_all_iff list_ex_iff)
qed

text \<open>
  The claim of C3 as stated is false for the single comment 5 with parent 999: the code
  returns no root, the specification's algorithm returns the comment as a root.
\<close>

theorem differs_from_spec_on_orphan:
  "buildCommentTree orphan_only =
     Inr \<lparr>heap = [\<lparr>comment = cmt 5 (Some 999) ''e'', children = Some []\<rparr>], roots = []\<rparr> \<and>
   spec_buildCommentTree orphan_only =
     Inr \<lparr>heap = [\<lparr>comment = cmt 5 (Some 999) ''e'', children = Some []\<rparr>], roots = [0]\<rparr> \<and>
   buildCommentTree orphan_only \<noteq> spec_buildCommentTree orphan_only"
  by (simp add: buildCommentTree_def spec_buildCommentTree_def link_def spec_link_def
        push_root_def cmt_def orphan_only_def)

text \<open>
  C4. For every input with unique ids, the children of every node are in the relative
  order of the input, and so are the roots. The object at address \<open>a\<close> holds the \<open>a\<close>-th
  input comment; the addresses in every \<^verbatim>\<open>children\<close> array and in \<^verbatim>\<open>roots\<close> are strictly
  increasing; and read as comments, the children of a node are the sublist of the input
  made of the replies to it, the roots the sublist of the top-level comments.
\<close>

theorem children_in_input_order:
  assumes "distinct (map id_c cs)"
  shows "\<exists>f. buildCommentTree cs = Inr f \<and> map comment (heap f) = cs \<and>
             sorted_wrt (<) (roots f) \<and> map ((!) cs) (roots f) = filter top_level cs \<and>
             (\<forall>a<length cs. \<exists>kids. children (heap f ! a) = Some kids \<and> sorted_wrt (<) kids \<and>
                  map ((!) cs) kids = filter (reply_to (cs ! a)) cs)"
proof -
  have 1: "map comment (heap (grouped cs)) = cs"
    by (intro nth_equalityI) (simp_all add: grouped_def)
  have 2: "sorted_wrt (<) (roots (grouped cs))"
    by (simp add: grouped_def sorted_wrt_filter)
  have 3: "map ((!) cs) (roots (grouped cs)) = filter top_level cs"
    unfolding grouped_def by (simp add: filter_index [symmetric])
  have 4: "\<exists>kids. children (heap (grouped cs) ! a) = Some kids \<and> sorted_wrt (<) kids \<and>
                  map ((!) cs) kids = filter (reply_to (cs ! a)) cs" if "a < length cs" for a
    using that by (simp add: grouped_def sorted_wrt_filter filter_index [symmetric])
  from 1 2 3 4 show ?thesis
    using build_grouped [OF assms] by blast
qed

theorem children_in_input_order_witness:
  "distinct (map id_c thread) \<and>
   buildCommentTree thread =
     Inr \<lparr>heap = [\<lparr>comment = cmt 1 None ''a'', children = Some [1, 2]\<rparr>,
                 \<lparr>comment = cmt 2 (Some 1) ''b'', children = Some [3]\<rparr>,
                 \<lparr>comment = cmt 3 (Some 1) ''c'', children = Some []\<rparr>,
                 \<lparr>comment = cmt 4 (Some 2) ''d'', children = Some []\<rparr>],
          roots = [0]\<rparr> \<and>
   filter (reply_to (thread ! 0)) thread = [thread ! 1, thread ! 2]"
  using children_in_input_order [of thread]
  by (simp add: thread_example) (simp add: thread_def cmt_def reply_to_def truthy_def)

text \<open>
  C5. For every input with unique ids, no id occurs twice in the whole forest: the walk
  from the returned roots, through all descendants, completes within a depth budget \<open>n\<close>
  of at least the number of comments and meets pairwise different ids.
\<close>

theorem no_id_twice:
  assumes "distinct (map id_c cs)" "length cs \<le> n"
  shows "\<exists>ids. reachable_ids n cs = Some ids \<and> distinct ids"
proof -
  from reachable_comments_props [OF assms] obtain rs where
    rs: "reachable_comments n cs = Some rs" "distinct rs" "set rs = {d \<in> set cs. rooted cs d}"
    by blast
  from rs(3) have "set rs \<subseteq> set cs" by auto
  moreover from assms(1) have "inj_on id_c (set cs)" by (simp add: distinct_map)
  ultimately have "inj_on id_c (set rs)" by (rule inj_on_subset [rotated])
  with rs(2) have "distinct (map id_c rs)" by (simp add: distinct_map)
  with rs(1) show ?thesis by (simp add: reachable_ids_def)
qed

theorem no_id_twice_witness:
  "distinct (map id_c thread) \<and> length thread \<le> 4 \<and>
   reachable_ids 4 thread = Some [1, 2, 4, 3] \<and> distinct [1, 2, 4, 3 :: int]"
  using no_id_twice [of thread 4]
  by (simp add: thread_forest) (simp add: thread_def cmt_def)

text \<open>
  C6. \<^verbatim>\<open>buildCommentTree\<close> is total: on every input list, self-referential and cyclic
  parent ids included, it returns; neither \<^verbatim>\<open>push\<close> fails and no \<^verbatim>\<open>undefined\<close> is
  stored. Its result is a function of the input alone, and the objects it creates hold
  copies of the input comments, in input order.
\<close>

theorem buildCommentTree_total:
  "\<exists>f. buildCommentTree cs = Inr f \<and> map comment (heap f) = cs"
proof -
  from build_linked [of cs] obtain f where
    f: "buildCommentTree cs = Inr f" and
    l: "linked (snd (first_pass cs ([], Map.empty))) cs
          \<lparr>heap = map (\<lambda>c. \<lparr>comment = c, children = Some []\<rparr>) cs, roots = []\<rparr> f"
    by blast
  from l have "length (heap f) = length cs" and "\<forall>a<length cs. comment (heap f ! a) = cs ! a"
    by (simp_all add: linked_def)
  then have "map comment (heap f) = cs"
    by (intro nth_equalityI) simp_all
  with f show ?thesis by blast
qed

text \<open>
  C7. \<^verbatim>\<open>totalComments\<close> is the length of the input list, \<^verbatim>\<open>rootComments\<close> is the number
  of entries of the array that \<^verbatim>\<open>buildCommentTree\<close> returns, and for the empty input the
  forest is empty and both counts are 0 (as they are while the data is still undefined).
\<close>

theorem derived_counts:
  "totalComments (Some cs) = length cs \<and>
   (\<exists>f. buildCommentTree cs = Inr f \<and> rootComments (Some cs) = Inr (length (roots f))) \<and>
   commentTree (Some []) = Inr \<lparr>heap = [], roots = []\<rparr> \<and>
   totalComments (Some []) = 0 \<and> rootComments (Some []) = Inr 0 \<and>
   totalComments None = 0 \<and> rootComments None = Inr 0"
proof -
  from build_linked [of cs] obtain f where f: "buildCommentTree cs = Inr f" by blast
  then have "rootComments (Some cs) = Inr (length (roots f))"
    by (simp add: rootComments_def commentTree_def)
  with f have "\<exists>f. buildCommentTree cs = Inr f \<and> rootComments (Some cs) = Inr (length (roots f))"
    by blast
  moreover have "buildCommentTree [] = Inr \<lparr>heap = [], roots = []\<rparr>"
    by (simp add: buildCommentTree_def)
  ultimately show ?thesis
    by (simp add: totalComments_def rootComments_def commentTree_def)
qed

text \<open>
  C8. \<^verbatim>\<open>createComment\<close> and \<^verbatim>\<open>createReply\<close> throw when the user's id or display name is
  absent, and the backend is not called: its state is the one before the call, whatever
  the insert operation would have done.
\<close>

theorem not_logged_in_blocks:
  assumes "userId = None \<or> author' = None"
  shows "createComment ins newComment postId userId author' db =
           (Inl (Error ''You must be logged in to comment.''), db) \<and>
         createReply ins replyContent postId parentCommentId userId author' db =
           (Inl (Error ''You must be logged in to reply.''), db)"
  using assms by (auto simp: createComment_def createReply_def truthy_string_def)

theorem not_logged_in_blocks_witness:
  "createComment (\<lambda>row db. (None, row # db)) \<lparr>new_content = ''hi'', new_parent_comment_id = None\<rparr>
     1 None (Some ''ann'') [] = (Inl (Error ''You must be logged in to comment.''), []) \<and>
   createReply (\<lambda>row db. (None, row # db)) ''re'' 1 2 None (Some ''ann'') [] =
     (Inl (Error ''You must be logged in to reply.''), [])"
  using not_logged_in_blocks [of None "Some ''ann''" "\<lambda>row db. (None, row # db)"
      "\<lparr>new_content = ''hi'', new_parent_comment_id = None\<rparr>" 1 "[]" "''re''" 2]
  by simp

text \<open>
  C9. For every input list, a comment whose parent id is 0 is treated as one whose parent
  id is null, also when a comment with id 0 is in the input: the returned array and every
  \<^verbatim>\<open>children\<close> array are the ones obtained for the input with each parent id 0 replaced
  by null, the ids of the roots are the ids of the comments with parent id null or 0 in
  input order, and so the id of every comment with parent id 0 is among the roots.
\<close>

theorem zero_parent_is_root:
  "\<exists>f g. buildCommentTree cs = Inr f \<and> buildCommentTree (map zero_as_null cs) = Inr g \<and>
         roots f = roots g \<and> map children (heap f) = map children (heap g) \<and>
         map (\<lambda>a. id_c (comment (heap f ! a))) (roots f) = map id_c (filter top_level cs) \<and>
         (\<forall>c\<in>set cs. parent_comment_id c = Some 0 \<longrightarrow>
              id_c c \<in> set (map (\<lambda>a. id_c (comment (heap f ! a))) (roots f)))"
proof -
  let ?m = "snd (first_pass cs ([], Map.empty))"
  let ?zs = "map zero_as_null cs"
  have m: "snd (first_pass ?zs ([], Map.empty)) = ?m"
    by (rule lookup_ids) (simp add: zero_as_null_simps)
  from build_linked [of cs] obtain f where
    f: "buildCommentTree cs = Inr f" and
    lf: "linked ?m cs \<lparr>heap = map (\<lambda>c. \<lparr>comment = c, children = Some []\<rparr>) cs, roots = []\<rparr> f"
    by blast
  from build_linked [of ?zs] m obtain g where
    g: "buildCommentTree ?zs = Inr g" and
    lg: "linked ?m ?zs \<lparr>heap = map (\<lambda>c. \<lparr>comment = c, children = Some []\<rparr>) ?zs, roots = []\<rparr> g"
    by auto
  have r: "roots f = roots g"
    using lf lg by (simp add: linked_def root_refs_zero_as_null)
  have "length (heap f) = length cs" "length (heap g) = length cs"
    using lf lg by (simp_all add: linked_def)
  moreover have "children (heap f ! a) = children (heap g ! a)" if "a < length cs" for a
    using lf lg that by (simp add: linked_def child_refs_zero_as_null)
  ultimately have ch: "map children (heap f) = map children (heap g)"
    by (intro nth_equalityI) simp_all
  have "\<forall>a<length cs. comment (heap f ! a) = cs ! a"
    using lf by (simp add: linked_def)
  from root_ref_ids [OF this] lf
  have ids: "map (\<lambda>a. id_c (comment (heap f ! a))) (roots f) = map id_c (filter top_level cs)"
    by (simp add: linked_def)
  have "id_c c \<in> set (map (\<lambda>a. id_c (comment (heap f ! a))) (roots f))"
    if "c \<in> set cs" "parent_comment_id c = Some 0" for c
  proof -
    from that have "c \<in> set (filter top_level cs)"
      by (simp add: top_level_def truthy_def)
    then have "id_c c \<in> set (map id_c (filter top_level cs))"
      by (simp del: set_filter)
    with ids show ?thesis by simp
  qed
  with f g r ch ids show ?thesis by blast
qed

theorem zero_parent_is_root_witness:
  "map parent_comment_id zero_parent = [None, Some 0] \<and>
   buildCommentTree zero_parent =
     Inr \<lparr>heap = [\<lparr>comment = cmt 0 None ''z'', children = Some []\<rparr>,
                 \<lparr>comment = cmt 7 (Some 0) ''r'', children = Some []\<rparr>],
          roots = [0, 1]\<rparr> \<and>
   buildCommentTree (map zero_as_null zero_parent) =
     Inr \<lparr>heap = [\<lparr>comment = cmt 0 None ''z'', children = Some []\<rparr>,
                 \<lparr>comment = cmt 7 None ''r'', children = Some []\<rparr>],
          roots = [0, 1]\<rparr> \<and>
   map id_c (filter top_level zero_parent) = [0, 7]"
  using zero_parent_is_root [of zero_parent]
  by (simp add: buildCommentTree_def link_def push_root_def cmt_def zero_parent_def
        zero_as_null_def top_level_def truthy_def)

text \<open>
  C10. There is an input with two comments of the same id for which the second object
  replaces the first in the lookup, and the reference to this one object is pushed once
  per occurrence of the id: the returned array holds the same address twice, and the walk
  meets the later comment's fields twice and the earlier comment's never.
\<close>

theorem duplicate_id_example:
  "map id_c twice = [1, 1] \<and>
   buildCommentTree twice =
     Inr \<lparr>heap = [\<lparr>comment = cmt 1 None ''first'', children = Some []\<rparr>,
                 \<lparr>comment = cmt 1 None ''second'', children = Some []\<rparr>],
          roots = [1, 1]\<rparr> \<and>
   reachable_comments 1 twice = Some [cmt 1 None ''second'', cmt 1 None ''second'']"
proof -
  have b: "buildCommentTree twice =
     Inr \<lparr>heap = [\<lparr>comment = cmt 1 None ''first'', children = Some []\<rparr>,
                 \<lparr>comment = cmt 1 None ''second'', children = Some []\<rparr>],
          roots = [1, 1]\<rparr>"
    by (simp add: buildCommentTree_def link_def push_root_def cmt_def twice_def)
  have "reachable_comments 1 twice = Some [cmt 1 None ''second'', cmt 1 None ''second'']"
    by (simp add: reachable_comments_def b forest_of_def forest_comments_def)
  moreover have "map id_c twice = [1, 1]"
    by (simp add: twice_def cmt_def)
  ultimately show ?thesis using b by simp
qed

end
